theory Spec2Isabelle
  imports Main "HOL-Library.Word" "HOL-Library.Signed_Division"
begin

unbundle bit_operations_syntax

section \<open>The flake package: data model\<close>

text \<open>
  The Go package \<^verbatim>\<open>flake\<close> (file \<^verbatim>\<open>flake.go\<close>) packs a millisecond timestamp, a
  worker id and a per-millisecond sequence number into one \<^verbatim>\<open>uint64\<close>. Every
  \<^verbatim>\<open>uint64\<close> of the source is a \<open>64 word\<close> here, so that \<open>+\<close> and the left shift
  wrap around exactly as Go's do.
\<close>

type_synonym uint64 = "64 word"

definition HostBits :: nat where
  "HostBits = 10"

definition SequenceBits :: nat where
  "SequenceBits = 13"

text \<open>\<^verbatim>\<open>MaxWorkerId uint64 = (1 << HostBits) - 1\<close> and
  \<^verbatim>\<open>MaxSequence uint64 = (1 << SequenceBits) - 1\<close>.\<close>

definition MaxWorkerId :: uint64 where
  "MaxWorkerId = push_bit HostBits 1 - 1"

definition MaxSequence :: uint64 where
  "MaxSequence = push_bit SequenceBits 1 - 1"

text \<open>\<^verbatim>\<open>type Id uint64\<close> with its method \<^verbatim>\<open>Uint64()\<close>.\<close>

datatype Id = Id (Uint64: uint64)

text \<open>
  \<^verbatim>\<open>type Flake struct { prevTime, workerId, sequence uint64; mu sync.Mutex }\<close>.
  The mutex is kept as the flag "is locked"; its zero value is unlocked.
\<close>

record Flake =
  prevTime :: uint64
  workerId :: uint64
  sequence :: uint64
  mu :: bool

text \<open>
  What can stop a sequential caller other than a returned value: \<^verbatim>\<open>Lock\<close> on a mutex
  that is already held never returns, \<^verbatim>\<open>Unlock\<close> of a mutex that is not held is a
  fatal error of the Go runtime, and an index beyond a slice's length panics.
\<close>

datatype fault = Deadlock | UnlockOfUnlockedMutex | IndexOutOfRange

definition Lock :: "Flake \<Rightarrow> fault + Flake" where
  "Lock f = (if mu f then Inl Deadlock else Inr (f\<lparr>mu := True\<rparr>))"

definition Unlock :: "Flake \<Rightarrow> fault + Flake" where
  "Unlock f = (if mu f then Inr (f\<lparr>mu := False\<rparr>) else Inl UnlockOfUnlockedMutex)"

section \<open>The clock\<close>

text \<open>
  \<^verbatim>\<open>getTimestamp\<close> returns \<^verbatim>\<open>uint64(time.Since(Epoch).Nanoseconds() / 1e6)\<close>. The clock is
  the one input of the package that the caller does not pass: here it is the argument
  \<open>d\<close>, the \<^verbatim>\<open>int64\<close> number of nanoseconds since the epoch as the operating system
  reports it. Go's \<^verbatim>\<open>/\<close> on \<^verbatim>\<open>int64\<close> truncates towards zero (\<open>sdiv\<close> on \<open>int\<close>), and
  the conversion to \<^verbatim>\<open>uint64\<close> keeps the bit pattern, so a clock before the epoch reads
  as a value close to \<open>2 ^ 64\<close>.
\<close>

definition getTimestamp :: "64 word \<Rightarrow> uint64" where
  "getTimestamp d = word_of_int (sint d sdiv 1000000)"

section \<open>Construction and NextId\<close>

text \<open>\<^verbatim>\<open>New\<close>: \<^verbatim>\<open>sequence: 0, prevTime: getTimestamp(), workerId: workerId % MaxWorkerId\<close>.\<close>

definition New :: "uint64 \<Rightarrow> 64 word \<Rightarrow> Flake" where
  "New wid d =
     \<lparr>prevTime = getTimestamp d, workerId = wid mod MaxWorkerId, sequence = 0, mu = False\<rparr>"

text \<open>
  \<^verbatim>\<open>NextId\<close>, statement by statement. The first argument is the clock at the moment of
  the call. The result is the identifier together with the generator as the call
  leaves it.
\<close>

definition NextId :: "64 word \<Rightarrow> Flake \<Rightarrow> fault + (Id \<times> Flake)" where
  "NextId d f =
     (let now = getTimestamp d in
      case Lock f of
        Inl e \<Rightarrow> Inl e
      | Inr f1 \<Rightarrow>
         (let sequence0 = sequence f1;
              (now1, sequence1) =
                 (if now \<le> prevTime f1 then (prevTime f1, sequence0 + 1) else (now, 0));
              (now2, sequence2) =
                 (if sequence1 > MaxSequence then (now1 + 1, 0) else (now1, sequence1));
              f2 = f1\<lparr>prevTime := now2, sequence := sequence2\<rparr>
          in case Unlock f2 of
               Inl e \<Rightarrow> Inl e
             | Inr f3 \<Rightarrow>
                (let timestamp = push_bit (HostBits + SequenceBits) now2;
                     workerId' = push_bit SequenceBits (workerId f3)
                 in Inr (Id (timestamp OR workerId' OR sequence2), f3))))"

text \<open>
  A sequential caller, as the loop of the example program: one call of \<^verbatim>\<open>NextId\<close> after
  the other on the same generator, the \<open>k\<close>-th call seeing the \<open>k\<close>-th clock value.
  The result lists, for every call, the identifier it returned and the generator after it.
\<close>

fun NextIds :: "Flake \<Rightarrow> 64 word list \<Rightarrow> fault + (Id \<times> Flake) list" where
  "NextIds f [] = Inr []"
| "NextIds f (d # ds) =
     (case NextId d f of
        Inl e \<Rightarrow> Inl e
      | Inr (i, f') \<Rightarrow>
         (case NextIds f' ds of
            Inl e \<Rightarrow> Inl e
          | Inr r \<Rightarrow> Inr ((i, f') # r)))"

text \<open>
  The identifier that the \<open>k\<close>-th call of such a run returns, counting from 1;
  \<open>None\<close> when the run stops on a fault or has fewer than \<open>k\<close> calls.
\<close>

definition kth_Id :: "Flake \<Rightarrow> 64 word list \<Rightarrow> nat \<Rightarrow> Id option" where
  "kth_Id f ds k =
     (case NextIds f ds of
        Inl e \<Rightarrow> None
      | Inr r \<Rightarrow> (if 1 \<le> k \<and> k \<le> length r then Some (fst (r ! (k - 1))) else None))"

text \<open>
  The generators a sequential program can hold: the ones \<^verbatim>\<open>New\<close> builds, and what
  a returning call of \<^verbatim>\<open>NextId\<close> leaves behind.
\<close>

inductive reachable :: "Flake \<Rightarrow> bool" where
  reachable_New: "reachable (New wid d)"
| reachable_NextId: "reachable f \<Longrightarrow> NextId d f = Inr (i, f') \<Longrightarrow> reachable f'"

section \<open>The bit layout of an identifier\<close>

text \<open>
  The package comment fixes the layout: 41 bits of timestamp, then \<^verbatim>\<open>HostBits\<close> bits of
  worker id, then \<^verbatim>\<open>SequenceBits\<close> bits of sequence. These three readers take an
  identifier apart along that layout: bits 63 to 23, bits 22 to 13 and bits 12 to 0.
\<close>

definition timestampField :: "Id \<Rightarrow> uint64" where
  "timestampField i = drop_bit (HostBits + SequenceBits) (Uint64 i)"

definition workerField :: "Id \<Rightarrow> uint64" where
  "workerField i = take_bit HostBits (drop_bit SequenceBits (Uint64 i))"

definition sequenceField :: "Id \<Rightarrow> uint64" where
  "sequenceField i = take_bit SequenceBits (Uint64 i)"

section \<open>Id.String and the base-36 text\<close>

text \<open>
  Modelled from the spec: \<^verbatim>\<open>strconv.FormatUint\<close> and \<^verbatim>\<open>strconv.ParseUint\<close> belong to Go's
  standard library and are not files of this repository; \<^verbatim>\<open>Id.String\<close> is the one line
  \<^verbatim>\<open>strconv.FormatUint(uint64(id), 36)\<close>. The spec asks for "the base-36 textual encoding
  of the 64-bit value (lowercase digits 0-9 and a-z)" and for "parsing the base-36 string
  back as a 64-bit unsigned integer". Both are written here as the library computes them
  for base 36 and 64 bits: \<^verbatim>\<open>formatBits\<close> fills its buffer from the right, one digit
  \<^verbatim>\<open>u - (u / 36) * 36\<close> per round, and \<^verbatim>\<open>ParseUint\<close> reads from the left, refusing a
  character that is no digit (\<^verbatim>\<open>ErrSyntax\<close>) and a value beyond 64 bits (\<^verbatim>\<open>ErrRange\<close>).
\<close>

definition digits :: string where
  "digits = ''0123456789abcdefghijklmnopqrstuvwxyz''"

function formatBits :: "uint64 \<Rightarrow> string \<Rightarrow> string" where
  "formatBits u a =
     (if u \<ge> 36
      then (let q = u div 36 in formatBits q (digits ! unat (u - q * 36) # a))
      else digits ! unat u # a)"
  by pat_completeness auto
termination
proof (relation "measure (\<lambda>(u, a). unat u)")
  show "wf (measure (\<lambda>(u, a). unat u))" by simp
next
  fix u :: uint64 and a :: string and q :: uint64
  assume "36 \<le> u" and "q = u div 36"
  then have "unat q < unat u"
    by (simp add: unat_div word_le_nat_alt)
  then show "((q, digits ! unat (u - q * 36) # a), (u, a)) \<in> measure (\<lambda>(u, a). unat u)"
    by simp
qed

definition FormatUint36 :: "uint64 \<Rightarrow> string" where
  "FormatUint36 u = formatBits u []"

definition String :: "Id \<Rightarrow> string" where
  "String i = FormatUint36 (Uint64 i)"

datatype NumError = ErrSyntax | ErrRange

text \<open>\<^verbatim>\<open>lower(c) = c | ('x' - 'X')\<close>, on the code of the byte.\<close>

definition lower :: "nat \<Rightarrow> nat" where
  "lower c = c OR 32"

definition cutoff :: uint64 where
  "cutoff = (- 1) div 36 + 1"

definition maxVal :: uint64 where
  "maxVal = push_bit 64 1 - 1"

fun ParseUint_loop :: "uint64 \<Rightarrow> string \<Rightarrow> uint64 \<times> NumError option" where
  "ParseUint_loop n [] = (n, None)"
| "ParseUint_loop n (c # s) =
     (let k = (of_char c :: nat);
          digit = (if 48 \<le> k \<and> k \<le> 57 then Some (k - 48)
                   else if 97 \<le> lower k \<and> lower k \<le> 122 then Some (lower k - 97 + 10)
                   else None)
      in case digit of
           None \<Rightarrow> (0, Some ErrSyntax)
         | Some d \<Rightarrow>
            if d \<ge> 36 then (0, Some ErrSyntax)
            else if n \<ge> cutoff then (maxVal, Some ErrRange)
            else (let n' = n * 36; n1 = n' + of_nat d
                  in if n1 < n' \<or> n1 > maxVal then (maxVal, Some ErrRange)
                     else ParseUint_loop n1 s))"

definition ParseUint36 :: "string \<Rightarrow> uint64 \<times> NumError option" where
  "ParseUint36 s = (if s = [] then (0, Some ErrSyntax) else ParseUint_loop 0 s)"

section \<open>Worker id from the host address\<close>

text \<open>
  \<^verbatim>\<open>getHostId\<close> asks the operating system twice: \<^verbatim>\<open>os.Hostname()\<close> and
  \<^verbatim>\<open>net.LookupIP(h)\<close>. Both answers are arguments here, each the pair Go returns: a
  value and an error that is \<open>None\<close> for \<^verbatim>\<open>nil\<close>. An \<^verbatim>\<open>error\<close> is its message, an
  \<^verbatim>\<open>IP\<close> is a slice of bytes. \<^verbatim>\<open>IP.To4\<close> and \<^verbatim>\<open>binary.BigEndian.Uint32\<close> are the
  standard library's: a 4-byte address is returned as it is, a 16-byte address that wraps
  an IPv4 one gives its last four bytes, anything else gives \<^verbatim>\<open>nil\<close>.
\<close>

type_synonym error = string
type_synonym IP = "8 word list"

definition To4 :: "IP \<Rightarrow> IP" where
  "To4 ip =
     (if length ip = 4 then ip
      else if length ip = 16 \<and> list_all (\<lambda>b. b = 0) (take 10 ip)
                \<and> ip ! 10 = 255 \<and> ip ! 11 = 255
      then drop 12 ip
      else [])"

definition BigEndian_Uint32 :: "8 word list \<Rightarrow> 32 word" where
  "BigEndian_Uint32 b =
     ucast (b ! 3) OR push_bit 8 (ucast (b ! 2)) OR push_bit 16 (ucast (b ! 1))
       OR push_bit 24 (ucast (b ! 0))"

text \<open>
  \<^verbatim>\<open>addrs[0]\<close> is read without a look at \<^verbatim>\<open>len(addrs)\<close>: on an empty slice the index
  expression panics.
\<close>

definition getHostId ::
  "string \<times> error option \<Rightarrow> (string \<Rightarrow> IP list \<times> error option) \<Rightarrow> fault + (uint64 \<times> error option)"
where
  "getHostId Hostname LookupIP =
     (case Hostname of
        (h, Some err) \<Rightarrow> Inr (0, Some err)
      | (h, None) \<Rightarrow>
         (case LookupIP h of
            (addrs, Some err) \<Rightarrow> Inr (0, Some err)
          | (addrs, None) \<Rightarrow>
             (case addrs of
                [] \<Rightarrow> Inl IndexOutOfRange
              | a0 # _ \<Rightarrow>
                 (let a = To4 a0
                  in if length a < 4 then Inr (0, Some ''failed to resolve hostname'')
                     else (let ip = BigEndian_Uint32 a in Inr (ucast ip, None))))))"

definition WithHostId ::
  "string \<times> error option \<Rightarrow> (string \<Rightarrow> IP list \<times> error option) \<Rightarrow> 64 word
     \<Rightarrow> fault + (Flake option \<times> error option)"
where
  "WithHostId Hostname LookupIP d =
     (case getHostId Hostname LookupIP of
        Inl p \<Rightarrow> Inl p
      | Inr (workerID, Some err) \<Rightarrow> Inr (None, Some err)
      | Inr (workerID, None) \<Rightarrow> Inr (Some (New workerID d), None))"

section \<open>Three fields in one word\<close>

lemma take_bit_small:
  fixes w :: uint64
  shows "w < 2 ^ n \<Longrightarrow> take_bit n w = w"
  by (simp add: take_bit_eq_mask less_mask_eq)

lemma small_bits:
  fixes w :: uint64
  assumes "w < 2 ^ n" and "bit w k"
  shows "k < n"
proof (rule ccontr)
  assume far: "\<not> k < n"
  have "bit (take_bit n w) k"
    using assms by (simp add: take_bit_small)
  with far show False
    by (simp add: bit_take_bit_iff)
qed

lemma le_8191_less: "(s :: uint64) \<le> 8191 \<Longrightarrow> s < 2 ^ 13"
  by (simp add: word_le_nat_alt word_less_nat_alt)

text \<open>With a worker id of 10 bits and a sequence of 13 bits the three parts do not
  overlap, so \<open>OR\<close> adds them.\<close>

lemma compose_add:
  fixes t w s :: uint64
  assumes w: "w < 2 ^ 10" and s: "s < 2 ^ 13"
  shows "push_bit 23 t OR push_bit 13 w OR s = push_bit 23 t + push_bit 13 w + s"
proof -
  have low: "push_bit 13 w + s = push_bit 13 w OR s"
  proof (rule disjunctive_add)
    fix n
    show "\<not> bit (push_bit 13 w) n \<or> \<not> bit s n"
      using small_bits[OF s, of n] by (auto simp: bit_push_bit_iff)
  qed
  have high: "push_bit 23 t + (push_bit 13 w OR s) = push_bit 23 t OR (push_bit 13 w OR s)"
  proof (rule disjunctive_add)
    fix n
    show "\<not> bit (push_bit 23 t) n \<or> \<not> bit (push_bit 13 w OR s) n"
      using small_bits[OF s, of n] small_bits[OF w, of "n - 13"]
      by (auto simp: bit_push_bit_iff bit_or_iff)
  qed
  from low high show ?thesis
    by (simp add: or.assoc add.assoc)
qed

lemma unat_compose:
  fixes t w s :: uint64
  assumes t: "t < 2 ^ 41" and w: "w < 2 ^ 10" and s: "s < 2 ^ 13"
  shows "unat (push_bit 23 t OR push_bit 13 w OR s)
           = unat t * 2 ^ 23 + unat w * 2 ^ 13 + unat s"
proof -
  have "unat t < 2 ^ 41" and "unat w < 2 ^ 10" and "unat s < 2 ^ 13"
    using assms by (simp_all add: word_less_nat_alt)
  then have "unat t * 2 ^ 23 + unat w * 2 ^ 13 + unat s < 2 ^ 64"
    by simp
  then show ?thesis
    unfolding compose_add[OF w s]
    by (simp add: unat_word_ariths push_bit_eq_mult)
qed

lemma fields_take_bit:
  fixes t w s :: uint64
  shows "take_bit 13 (push_bit 23 t OR push_bit 13 w OR take_bit 13 s) = take_bit 13 s"
    and "take_bit 10 (drop_bit 13 (push_bit 23 t OR push_bit 13 (take_bit 10 w) OR take_bit 13 s))
           = take_bit 10 w"
    and "drop_bit 23 (push_bit 23 t OR push_bit 13 (take_bit 10 w) OR take_bit 13 s)
           = take_bit 41 t"
  by (auto intro!: bit_eqI simp: bit_simps)

lemma sequence_of_compose:
  fixes t w s :: uint64
  assumes "s < 2 ^ 13"
  shows "take_bit 13 (push_bit 23 t OR push_bit 13 w OR s) = s"
  using fields_take_bit(1)[of t w s] take_bit_small[OF assms] by simp

lemma worker_of_compose:
  fixes t w s :: uint64
  assumes "w < 2 ^ 10" and "s < 2 ^ 13"
  shows "take_bit 10 (drop_bit 13 (push_bit 23 t OR push_bit 13 w OR s)) = w"
  using fields_take_bit(2)[of t w s] take_bit_small[OF assms(1)] take_bit_small[OF assms(2)]
  by simp

lemma timestamp_of_compose:
  fixes t w s :: uint64
  assumes "w < 2 ^ 10" and "s < 2 ^ 13"
  shows "drop_bit 23 (push_bit 23 t OR push_bit 13 w OR s) = take_bit 41 t"
  using fields_take_bit(3)[of t w s] take_bit_small[OF assms(1)] take_bit_small[OF assms(2)]
  by simp

section \<open>One call of NextId\<close>

text \<open>On an unlocked generator the two mutex operations succeed, and what is left is the
  arithmetic of the critical section.\<close>

lemma NextId_unlocked:
  "\<not> mu f \<Longrightarrow> NextId d f =
     (let now = getTimestamp d;
          now1 = (if now \<le> prevTime f then prevTime f else now);
          sequence1 = (if now \<le> prevTime f then sequence f + 1 else 0);
          now2 = (if sequence1 > 8191 then now1 + 1 else now1);
          sequence2 = (if sequence1 > 8191 then 0 else sequence1)
      in Inr (Id (push_bit 23 now2 OR push_bit 13 (workerId f) OR sequence2),
              f\<lparr>prevTime := now2, sequence := sequence2\<rparr>))"
  by (simp add: NextId_def Lock_def Unlock_def Let_def MaxSequence_def HostBits_def
      SequenceBits_def)

lemma NextId_locked: "mu f \<Longrightarrow> NextId d f = Inl Deadlock"
  by (simp add: NextId_def Lock_def Let_def)

lemma NextId_Inr_unlocked: "NextId d f = Inr (i, f') \<Longrightarrow> \<not> mu f \<and> \<not> mu f'"
  by (cases "mu f") (auto simp: NextId_locked NextId_unlocked Let_def)

lemma NextId_id:
  "NextId d f = Inr (i, f') \<Longrightarrow>
     Uint64 i = push_bit 23 (prevTime f') OR push_bit 13 (workerId f') OR sequence f'"
  by (cases "mu f") (auto simp: NextId_locked NextId_unlocked Let_def)

lemma NextId_writes:
  "NextId d f = Inr (i, f') \<Longrightarrow> f' = f\<lparr>prevTime := prevTime f', sequence := sequence f'\<rparr>"
  by (cases "mu f") (auto simp: NextId_locked NextId_unlocked Let_def)

lemma NextId_workerId: "NextId d f = Inr (i, f') \<Longrightarrow> workerId f' = workerId f"
  by (cases "mu f") (auto simp: NextId_locked NextId_unlocked Let_def)

lemma NextId_sequence_le: "NextId d f = Inr (i, f') \<Longrightarrow> sequence f' \<le> 8191"
  by (cases "mu f")
     (auto simp: NextId_locked NextId_unlocked Let_def not_less split: if_splits)

lemma New_unlocked: "\<not> mu (New wid d)"
  by (simp add: New_def)

lemma New_workerId_less: "workerId (New wid d) < 2 ^ 10"
proof -
  have "wid mod 1023 < 1023"
    by (rule word_mod_less_divisor) simp
  then show ?thesis
    by (simp add: New_def MaxWorkerId_def HostBits_def word_less_nat_alt)
qed

lemma reachable_unlocked: "reachable f \<Longrightarrow> \<not> mu f"
  by (induction rule: reachable.induct) (auto simp: New_unlocked dest: NextId_Inr_unlocked)

text \<open>The step that orders two consecutive identifiers: the state a call starts from,
  read as an identifier, lies below the identifier the call returns.\<close>

lemma NextId_increasing:
  assumes step: "NextId d f = Inr (i, f')"
    and w: "workerId f < 2 ^ 10" and s: "sequence f \<le> 8191"
    and t: "prevTime f < 2 ^ 41" and t': "prevTime f' < 2 ^ 41"
  shows "push_bit 23 (prevTime f) OR push_bit 13 (workerId f) OR sequence f < Uint64 i"
proof -
  have nl: "\<not> mu f"
    using step NextId_Inr_unlocked by blast
  have s': "sequence f' < 2 ^ 13"
    using NextId_sequence_le[OF step] by (rule le_8191_less)
  have w': "workerId f' = workerId f"
    by (rule NextId_workerId[OF step])
  have before: "unat (push_bit 23 (prevTime f) OR push_bit 13 (workerId f) OR sequence f)
            = unat (prevTime f) * 2 ^ 23 + unat (workerId f) * 2 ^ 13 + unat (sequence f)"
    by (rule unat_compose[OF t w le_8191_less[OF s]])
  have after: "unat (Uint64 i)
            = unat (prevTime f') * 2 ^ 23 + unat (workerId f) * 2 ^ 13 + unat (sequence f')"
    using unat_compose[OF t' _ s', of "workerId f'"] w w' NextId_id[OF step] by simp
  have sn: "unat (sequence f) \<le> 8191"
    using s by (simp add: word_le_nat_alt)
  have tn: "unat (prevTime f) < 2 ^ 41"
    using t by (simp add: word_less_nat_alt)
  have key: "unat (prevTime f) * 2 ^ 23 + unat (sequence f)
             < unat (prevTime f') * 2 ^ 23 + unat (sequence f')"
  proof (cases "getTimestamp d \<le> prevTime f")
    case same: True
    show ?thesis
    proof (cases "sequence f + 1 > 8191")
      case True
      with same step nl have "prevTime f' = prevTime f + 1" and "sequence f' = 0"
        by (auto simp: NextId_unlocked Let_def)
      moreover have "unat (prevTime f + 1) = unat (prevTime f) + 1"
        using tn by (simp add: unat_word_ariths)
      ultimately show ?thesis
        using sn by simp
    next
      case False
      with same step nl have "prevTime f' = prevTime f" and "sequence f' = sequence f + 1"
        by (auto simp: NextId_unlocked Let_def)
      moreover have "unat (sequence f + 1) = unat (sequence f) + 1"
        using sn by (simp add: unat_word_ariths)
      ultimately show ?thesis
        by simp
    qed
  next
    case False
    with step nl have "prevTime f' = getTimestamp d" and "sequence f' = 0"
      by (auto simp: NextId_unlocked Let_def)
    moreover from False have "unat (prevTime f) < unat (getTimestamp d)"
      by (simp add: word_le_nat_alt)
    ultimately have "unat (prevTime f) + 1 \<le> unat (prevTime f')"
      by simp
    then have "(unat (prevTime f) + 1) * 2 ^ 23 \<le> unat (prevTime f') * 2 ^ 23"
      by (rule mult_le_mono1)
    then show ?thesis
      using sn by simp
  qed
  show ?thesis
    unfolding word_less_nat_alt before after using key by simp
qed

lemma NextIds_increasing_from:
  assumes "NextIds f ds = Inr r"
    and "workerId f < 2 ^ 10" and "sequence f \<le> 8191" and "prevTime f < 2 ^ 41"
    and "\<forall>x\<in>set r. prevTime (snd x) < 2 ^ 41"
  shows "sorted_wrt (<)
           ((push_bit 23 (prevTime f) OR push_bit 13 (workerId f) OR sequence f)
              # map (\<lambda>x. Uint64 (fst x)) r)"
  using assms
proof (induction ds arbitrary: f r)
  case Nil
  then show ?case by simp
next
  case (Cons d ds)
  from Cons.prems(1) obtain i f' r' where
    step: "NextId d f = Inr (i, f')" and rest: "NextIds f' ds = Inr r'" and r: "r = (i, f') # r'"
    by (auto split: sum.splits)
  have t': "prevTime f' < 2 ^ 41"
    using Cons.prems(5) r by simp
  have lt: "push_bit 23 (prevTime f) OR push_bit 13 (workerId f) OR sequence f < Uint64 i"
    by (rule NextId_increasing[OF step Cons.prems(2,3,4) t'])
  have ih: "sorted_wrt (<)
             ((push_bit 23 (prevTime f') OR push_bit 13 (workerId f') OR sequence f')
                # map (\<lambda>x. Uint64 (fst x)) r')"
  proof (rule Cons.IH[OF rest])
    show "workerId f' < 2 ^ 10"
      using Cons.prems(2) NextId_workerId[OF step] by simp
    show "sequence f' \<le> 8191"
      by (rule NextId_sequence_le[OF step])
    show "prevTime f' < 2 ^ 41"
      by (rule t')
    show "\<forall>x\<in>set r'. prevTime (snd x) < 2 ^ 41"
      using Cons.prems(5) r by simp
  qed
  have hd: "Uint64 i = push_bit 23 (prevTime f') OR push_bit 13 (workerId f') OR sequence f'"
    by (rule NextId_id[OF step])
  from ih hd lt show ?case
    unfolding r by (auto simp: less_trans)
qed

text \<open>Concrete generators and runs, evaluated once.\<close>

lemma New_eval:
  "New 3 d = \<lparr>prevTime = getTimestamp d, workerId = 3, sequence = 0, mu = False\<rparr>"
  by (simp add: New_def MaxWorkerId_def HostBits_def)

lemma run_example:
  "NextIds (New 3 5000000000) [5000000000, 4000000000, 6000000000]
     = Inr [(Id 41943064577, \<lparr>prevTime = 5000, workerId = 3, sequence = 1, mu = False\<rparr>),
            (Id 41943064578, \<lparr>prevTime = 5000, workerId = 3, sequence = 2, mu = False\<rparr>),
            (Id 50331672576, \<lparr>prevTime = 6000, workerId = 3, sequence = 0, mu = False\<rparr>)]"
  by (simp add: New_eval getTimestamp_def NextId_unlocked Let_def)

section \<open>Claims about NextId\<close>

text \<open>
  C1 (as amended). A generator built by \<^verbatim>\<open>New\<close> is called any number of times in a row,
  each call with its own clock value: the same millisecond again, an earlier one, a later
  one. As long as every timestamp a call stores fits the 41-bit field (is below
  \<open>2 ^ 41\<close>), the identifiers come out strictly increasing as 64-bit integers.
\<close>

theorem NextIds_strictly_increasing_in_window:
  assumes run: "NextIds (New wid d0) ds = Inr r"
    and window: "\<forall>x\<in>set r. prevTime (snd x) < 2 ^ 41"
  shows "sorted_wrt (<) (map (\<lambda>x. Uint64 (fst x)) r)"
proof (cases ds)
  case Nil
  with run show ?thesis by simp
next
  case (Cons d ds')
  with run obtain i f' r' where
    step: "NextId d (New wid d0) = Inr (i, f')" and rest: "NextIds f' ds' = Inr r'"
    and r: "r = (i, f') # r'"
    by (auto split: sum.splits)
  have "sorted_wrt (<)
          ((push_bit 23 (prevTime f') OR push_bit 13 (workerId f') OR sequence f')
             # map (\<lambda>x. Uint64 (fst x)) r')"
  proof (rule NextIds_increasing_from[OF rest])
    show "workerId f' < 2 ^ 10"
      using New_workerId_less[of wid d0] NextId_workerId[OF step] by simp
    show "sequence f' \<le> 8191"
      by (rule NextId_sequence_le[OF step])
    show "prevTime f' < 2 ^ 41"
      using window r by simp
    show "\<forall>x\<in>set r'. prevTime (snd x) < 2 ^ 41"
      using window r by simp
  qed
  then show ?thesis
    unfolding r using NextId_id[OF step] by simp
qed

text \<open>A run of three calls inside the window: the clock stands still, steps back, then
  moves on.\<close>

theorem NextIds_strictly_increasing_in_window_witness:
  "NextIds (New 3 5000000000) [5000000000, 4000000000, 6000000000]
     = Inr [(Id 41943064577, \<lparr>prevTime = 5000, workerId = 3, sequence = 1, mu = False\<rparr>),
            (Id 41943064578, \<lparr>prevTime = 5000, workerId = 3, sequence = 2, mu = False\<rparr>),
            (Id 50331672576, \<lparr>prevTime = 6000, workerId = 3, sequence = 0, mu = False\<rparr>)]
   \<and> list_all (\<lambda>x. prevTime (snd x) < 2 ^ 41)
          [(Id 41943064577, \<lparr>prevTime = 5000, workerId = 3, sequence = 1, mu = False\<rparr>),
            (Id 41943064578, \<lparr>prevTime = 5000, workerId = 3, sequence = 2, mu = False\<rparr>),
            (Id 50331672576, \<lparr>prevTime = 6000, workerId = 3, sequence = 0, mu = False\<rparr>)]
   \<and> sorted_wrt (<) (map (\<lambda>x. Uint64 (fst x))
          [(Id 41943064577, \<lparr>prevTime = 5000, workerId = 3, sequence = 1, mu = False\<rparr>),
            (Id 41943064578, \<lparr>prevTime = 5000, workerId = 3, sequence = 2, mu = False\<rparr>),
            (Id 50331672576, \<lparr>prevTime = 6000, workerId = 3, sequence = 0, mu = False\<rparr>)])"
proof -
  note run = run_example
  have window: "\<forall>x\<in>set [(Id 41943064577, \<lparr>prevTime = 5000, workerId = 3, sequence = 1, mu = False\<rparr>),
            (Id 41943064578, \<lparr>prevTime = 5000, workerId = 3, sequence = 2, mu = False\<rparr>),
            (Id 50331672576, \<lparr>prevTime = 6000, workerId = 3, sequence = 0, mu = False\<rparr>)].
          prevTime (snd x) < (2 ^ 41 :: uint64)"
    by simp
  from run window NextIds_strictly_increasing_in_window[OF run window] show ?thesis
    by (simp only: list_all_iff)
qed

text \<open>
  C1 as stated, for every clock value, fails: the shift by 23 drops the bits of a
  timestamp beyond \<open>2 ^ 41\<close>. After a call at the last millisecond of the window, a
  call one millisecond later returns the smaller identifier.
\<close>

theorem NextIds_not_increasing_past_window:
  "NextIds (New 3 2199023255551000000) [2199023255551000000, 2199023255552000000]
     = Inr [(Id 18446744073701187585,
               \<lparr>prevTime = 2199023255551, workerId = 3, sequence = 1, mu = False\<rparr>),
            (Id 24576,
               \<lparr>prevTime = 2199023255552, workerId = 3, sequence = 0, mu = False\<rparr>)]
   \<and> \<not> sorted_wrt (<) (map (\<lambda>x. Uint64 (fst x))
           [(Id 18446744073701187585,
               \<lparr>prevTime = 2199023255551, workerId = 3, sequence = 1, mu = False\<rparr>),
            (Id 24576,
               \<lparr>prevTime = 2199023255552, workerId = 3, sequence = 0, mu = False\<rparr>)])"
  by (simp add: New_eval getTimestamp_def NextId_unlocked Let_def)

text \<open>
  C3. Whenever \<^verbatim>\<open>NextId\<close> returns, the identifier is
  \<open>(now << 23) | (workerId << 13) | sequence\<close> for the timestamp and the sequence the
  call has stored and the worker id of the generator. Read back along the layout: the low
  13 bits are that sequence; with a worker id below \<open>2 ^ 10\<close>, as \<^verbatim>\<open>New\<close> stores it,
  bits 22 to 13 are the worker id and bits 63 to 23 are the low 41 bits of the timestamp,
  which is the timestamp itself when it is below \<open>2 ^ 41\<close>.
\<close>

theorem NextId_composition:
  assumes "NextId d f = Inr (i, f')"
  shows "i = Id (push_bit (HostBits + SequenceBits) (prevTime f')
                  OR push_bit SequenceBits (workerId f) OR sequence f')
       \<and> sequenceField i = sequence f'
       \<and> (workerId f < 2 ^ HostBits \<longrightarrow>
            workerField i = workerId f \<and> timestampField i = take_bit 41 (prevTime f'))
       \<and> (workerId f < 2 ^ HostBits \<and> prevTime f' < 2 ^ 41 \<longrightarrow> timestampField i = prevTime f')"
proof -
  have u: "Uint64 i = push_bit 23 (prevTime f') OR push_bit 13 (workerId f) OR sequence f'"
    using NextId_id[OF assms] NextId_workerId[OF assms] by simp
  have s: "sequence f' < 2 ^ 13"
    using NextId_sequence_le[OF assms] by (rule le_8191_less)
  have 1: "i = Id (push_bit (HostBits + SequenceBits) (prevTime f')
                  OR push_bit SequenceBits (workerId f) OR sequence f')"
    using u by (cases i) (simp add: HostBits_def SequenceBits_def)
  have 2: "sequenceField i = sequence f'"
    unfolding sequenceField_def SequenceBits_def u by (rule sequence_of_compose[OF s])
  have 3: "workerField i = workerId f \<and> timestampField i = take_bit 41 (prevTime f')"
    if w: "workerId f < 2 ^ HostBits"
    using w worker_of_compose[OF _ s, of "workerId f" "prevTime f'"]
      timestamp_of_compose[OF _ s, of "workerId f" "prevTime f'"]
    by (simp add: workerField_def timestampField_def u HostBits_def SequenceBits_def)
  have 4: "timestampField i = prevTime f'"
    if "workerId f < 2 ^ HostBits \<and> prevTime f' < 2 ^ 41"
    using 3 that take_bit_small[of "prevTime f'" 41] by simp
  from 1 2 3 4 show ?thesis by blast
qed

text \<open>One call inside the window, on a generator built a second before: the clock has
  moved on, the sequence starts again at 0.\<close>

lemma step_example:
  "NextId 6000000000 (New 3 5000000000)
     = Inr (Id 50331672576, \<lparr>prevTime = 6000, workerId = 3, sequence = 0, mu = False\<rparr>)"
  by (simp add: New_eval getTimestamp_def NextId_unlocked Let_def)

theorem NextId_composition_witness:
  "NextId 6000000000 (New 3 5000000000)
     = Inr (Id 50331672576, \<lparr>prevTime = 6000, workerId = 3, sequence = 0, mu = False\<rparr>)
   \<and> workerId (New 3 5000000000) < 2 ^ HostBits
   \<and> (6000 :: uint64) < 2 ^ 41
   \<and> Id 50331672576 = Id (push_bit (HostBits + SequenceBits) 6000 OR push_bit SequenceBits 3 OR 0)
   \<and> sequenceField (Id 50331672576) = 0
   \<and> workerField (Id 50331672576) = 3
   \<and> timestampField (Id 50331672576) = 6000"
  using NextId_composition[OF step_example] step_example
  by (simp add: New_eval HostBits_def)

text \<open>
  C5 (as amended). The clock reads 5000 ms, the generator has worker id 3 and stored
  sequence 0. If its stored timestamp is earlier than 5000, \<^verbatim>\<open>NextId\<close> returns exactly
  \<open>(5000 << 23) | (3 << 13) | 0\<close>. If its stored timestamp is 5000 itself, as for a
  generator that \<^verbatim>\<open>New\<close> built under the same frozen clock, the call falls into the
  branch \<^verbatim>\<open>now <= f.prevTime\<close> and returns \<open>(5000 << 23) | (3 << 13) | 1\<close>.
\<close>

theorem NextId_at_5000:
  assumes "getTimestamp d = 5000" and "\<not> mu f" and "workerId f = 3" and "sequence f = 0"
  shows "(prevTime f < 5000 \<longrightarrow>
            NextId d f = Inr (Id (push_bit 23 5000 OR push_bit 13 3 OR 0),
                              f\<lparr>prevTime := 5000, sequence := 0\<rparr>))
       \<and> (prevTime f = 5000 \<longrightarrow>
            NextId d f = Inr (Id (push_bit 23 5000 OR push_bit 13 3 OR 1),
                              f\<lparr>prevTime := 5000, sequence := 1\<rparr>))"
  using assms by (auto simp: NextId_unlocked Let_def)

theorem NextId_at_5000_witness:
  "getTimestamp 5000000000 = 5000
   \<and> \<not> mu (New 3 4999000000) \<and> workerId (New 3 4999000000) = 3
   \<and> sequence (New 3 4999000000) = 0 \<and> prevTime (New 3 4999000000) < 5000
   \<and> NextId 5000000000 (New 3 4999000000)
        = Inr (Id (push_bit 23 5000 OR push_bit 13 3 OR 0),
               (New 3 4999000000)\<lparr>prevTime := 5000, sequence := 0\<rparr>)
   \<and> \<not> mu (New 3 5000000000) \<and> workerId (New 3 5000000000) = 3
   \<and> sequence (New 3 5000000000) = 0 \<and> prevTime (New 3 5000000000) = 5000
   \<and> NextId 5000000000 (New 3 5000000000)
        = Inr (Id (push_bit 23 5000 OR push_bit 13 3 OR 1),
               (New 3 5000000000)\<lparr>prevTime := 5000, sequence := 1\<rparr>)"
proof -
  have g: "getTimestamp 5000000000 = 5000"
    by (simp add: getTimestamp_def)
  have a: "\<not> mu (New 3 4999000000) \<and> workerId (New 3 4999000000) = 3
     \<and> sequence (New 3 4999000000) = 0 \<and> prevTime (New 3 4999000000) < 5000"
    by (simp add: New_eval getTimestamp_def)
  have b: "\<not> mu (New 3 5000000000) \<and> workerId (New 3 5000000000) = 3
     \<and> sequence (New 3 5000000000) = 0 \<and> prevTime (New 3 5000000000) = 5000"
    by (simp add: New_eval getTimestamp_def)
  from a b g NextId_at_5000[of 5000000000 "New 3 4999000000"]
    NextId_at_5000[of 5000000000 "New 3 5000000000"]
  show ?thesis by blast
qed

text \<open>
  C5 as stated fails on the generator \<^verbatim>\<open>New(3)\<close> built with the clock frozen at 5000 ms:
  worker id 3, stored sequence 0, and the first identifier carries sequence 1.
\<close>

theorem NextId_at_5000_fresh_generator:
  "NextId 5000000000 (New 3 5000000000)
     = Inr (Id (push_bit 23 5000 OR push_bit 13 3 OR 1),
            \<lparr>prevTime = 5000, workerId = 3, sequence = 1, mu = False\<rparr>)
   \<and> workerId (New 3 5000000000) = 3 \<and> sequence (New 3 5000000000) = 0
   \<and> Id (push_bit 23 5000 OR push_bit 13 3 OR 1) \<noteq> Id (push_bit 23 5000 OR push_bit 13 3 OR 0)"
  by (simp add: New_eval getTimestamp_def NextId_unlocked Let_def)

text \<open>
  C8. On every generator a sequential program can reach, and for every clock value (inside
  the 41-bit window or not), \<^verbatim>\<open>NextId\<close> returns an identifier: the mutex is free when the
  call starts, so \<^verbatim>\<open>Lock\<close> returns, \<^verbatim>\<open>Unlock\<close> finds it held, no other statement can
  fail, and the generator it leaves is reachable again.
\<close>

theorem NextId_total:
  assumes "reachable f"
  shows "\<exists>i f'. NextId d f = Inr (i, f') \<and> reachable f'"
proof -
  have "\<not> mu f" using assms by (rule reachable_unlocked)
  then obtain i f' where step: "NextId d f = Inr (i, f')"
    by (simp add: NextId_unlocked Let_def)
  with assms have "reachable f'" by (rule reachable_NextId)
  with step show ?thesis by blast
qed

theorem NextId_total_witness:
  "reachable (New 3 5000000000)
   \<and> (\<exists>i f'. NextId 6000000000 (New 3 5000000000) = Inr (i, f') \<and> reachable f')"
  using NextId_total[OF reachable_New, of 6000000000 3 5000000000] reachable_New[of 3 5000000000]
  by simp

text \<open>Along a run every generator keeps the worker id of the first.\<close>

lemma NextIds_workerId:
  "NextIds f ds = Inr r \<Longrightarrow> \<forall>x\<in>set r. workerId (snd x) = workerId f"
proof (induction ds arbitrary: f r)
  case Nil
  then show ?case by simp
next
  case (Cons d ds)
  from Cons.prems obtain i f' r' where
    step: "NextId d f = Inr (i, f')" and rest: "NextIds f' ds = Inr r'" and r: "r = (i, f') # r'"
    by (auto split: sum.splits)
  from Cons.IH[OF rest] NextId_workerId[OF step] show ?case
    unfolding r by simp
qed

text \<open>
  C9. A returning call of \<^verbatim>\<open>NextId\<close> leaves the generator as it was but for \<^verbatim>\<open>prevTime\<close>
  and \<^verbatim>\<open>sequence\<close>, so \<^verbatim>\<open>workerId\<close> is unchanged; after any number of calls on a
  generator built by \<^verbatim>\<open>New\<close> the worker id is still the one \<^verbatim>\<open>New\<close> stored.
\<close>

theorem NextId_keeps_workerId:
  "(NextId d f = Inr (i, f') \<longrightarrow>
       workerId f' = workerId f \<and> f' = f\<lparr>prevTime := prevTime f', sequence := sequence f'\<rparr>)
   \<and> (NextIds (New wid d0) ds = Inr r \<longrightarrow>
       (\<forall>x\<in>set r. workerId (snd x) = workerId (New wid d0)))"
  using NextId_workerId[of d f i f'] NextId_writes[of d f i f'] NextIds_workerId[of "New wid d0" ds r]
  by blast

theorem NextId_keeps_workerId_witness:
  "NextId 6000000000 (New 3 5000000000)
     = Inr (Id 50331672576, \<lparr>prevTime = 6000, workerId = 3, sequence = 0, mu = False\<rparr>)
   \<and> workerId \<lparr>prevTime = 6000, workerId = 3, sequence = 0, mu = False\<rparr> = workerId (New 3 5000000000)
   \<and> NextIds (New 3 5000000000) [5000000000, 4000000000, 6000000000]
     = Inr [(Id 41943064577, \<lparr>prevTime = 5000, workerId = 3, sequence = 1, mu = False\<rparr>),
            (Id 41943064578, \<lparr>prevTime = 5000, workerId = 3, sequence = 2, mu = False\<rparr>),
            (Id 50331672576, \<lparr>prevTime = 6000, workerId = 3, sequence = 0, mu = False\<rparr>)]
   \<and> list_all (\<lambda>x. workerId (snd x) = workerId (New 3 5000000000))
        [(Id 41943064577, \<lparr>prevTime = 5000, workerId = 3, sequence = 1, mu = False\<rparr>),
            (Id 41943064578, \<lparr>prevTime = 5000, workerId = 3, sequence = 2, mu = False\<rparr>),
            (Id 50331672576, \<lparr>prevTime = 6000, workerId = 3, sequence = 0, mu = False\<rparr>)]"
  using NextId_keeps_workerId[of 6000000000 "New 3 5000000000" "Id 50331672576"
      "\<lparr>prevTime = 6000, workerId = 3, sequence = 0, mu = False\<rparr>" 3 5000000000
      "[5000000000, 4000000000, 6000000000]"
      "[(Id 41943064577, \<lparr>prevTime = 5000, workerId = 3, sequence = 1, mu = False\<rparr>),
            (Id 41943064578, \<lparr>prevTime = 5000, workerId = 3, sequence = 2, mu = False\<rparr>),
            (Id 50331672576, \<lparr>prevTime = 6000, workerId = 3, sequence = 0, mu = False\<rparr>)]"]
    step_example run_example
  by (simp only: list_all_iff) simp

text \<open>
  C10 (as amended). When \<^verbatim>\<open>NextId\<close> returns, the stored sequence is at most
  \<^verbatim>\<open>MaxSequence\<close> = 8191 and is exactly the low 13 bits of the identifier, so it never
  reaches the worker field; and the stored timestamp is not below its value before the
  call, provided that value was not the largest \<^verbatim>\<open>uint64\<close>, \<open>2 ^ 64 - 1\<close>.
\<close>

theorem NextId_state_invariant:
  assumes "NextId d f = Inr (i, f')"
  shows "sequence f' \<le> MaxSequence \<and> sequenceField i = sequence f'
       \<and> (prevTime f < 18446744073709551615 \<longrightarrow> prevTime f \<le> prevTime f')"
proof -
  have nl: "\<not> mu f" using assms NextId_Inr_unlocked by blast
  have s: "sequence f' \<le> 8191" by (rule NextId_sequence_le[OF assms])
  have 1: "sequence f' \<le> MaxSequence"
    using s by (simp add: MaxSequence_def SequenceBits_def)
  have 2: "sequenceField i = sequence f'"
    unfolding sequenceField_def SequenceBits_def NextId_id[OF assms]
    by (rule sequence_of_compose[OF le_8191_less[OF s]])
  have 3: "prevTime f \<le> prevTime f'" if b: "prevTime f < 18446744073709551615"
  proof -
    have "prevTime f \<le> prevTime f + 1"
      using b by (simp add: word_le_nat_alt word_less_nat_alt unat_word_ariths)
    then show ?thesis
      using assms nl by (auto simp: NextId_unlocked Let_def split: if_splits)
  qed
  from 1 2 3 show ?thesis by blast
qed

theorem NextId_state_invariant_witness:
  "NextId 6000000000 (New 3 5000000000)
     = Inr (Id 50331672576, \<lparr>prevTime = 6000, workerId = 3, sequence = 0, mu = False\<rparr>)
   \<and> prevTime (New 3 5000000000) < 18446744073709551615
   \<and> (0 :: uint64) \<le> MaxSequence \<and> sequenceField (Id 50331672576) = 0
   \<and> prevTime (New 3 5000000000) \<le> 6000"
  using NextId_state_invariant[OF step_example] step_example
  by (simp add: New_eval getTimestamp_def)

text \<open>
  C10 as stated, for every call, fails at the largest \<^verbatim>\<open>uint64\<close>: with the stored
  timestamp \<open>2 ^ 64 - 1\<close> (a clock one millisecond before the epoch reads so) and the
  sequence used up, \<^verbatim>\<open>now++\<close> wraps to 0 and the stored timestamp decreases.
\<close>

theorem NextId_prevTime_wraps:
  "NextId (- 1000000) \<lparr>prevTime = 18446744073709551615, workerId = 3, sequence = 8191, mu = False\<rparr>
     = Inr (Id 24576, \<lparr>prevTime = 0, workerId = 3, sequence = 0, mu = False\<rparr>)
   \<and> \<not> prevTime \<lparr>prevTime = 18446744073709551615, workerId = 3, sequence = 8191, mu = False\<rparr>
         \<le> prevTime \<lparr>prevTime = 0, workerId = 3, sequence = 0, mu = False\<rparr>"
proof -
  have g: "getTimestamp (- 1000000) = 18446744073709551615"
    by (simp add: getTimestamp_def)
  show ?thesis
    by (simp add: g NextId_unlocked Let_def)
qed

section \<open>Claims about construction\<close>

text \<open>
  C4, at the input the claim names. \<^verbatim>\<open>New\<close> reduces the worker id modulo
  \<^verbatim>\<open>MaxWorkerId\<close> = 1023, not modulo 1024: \<^verbatim>\<open>New(1034)\<close> stores 11, and bits 22 to 13 of
  the identifier it produces read 11.
\<close>

theorem New_1034_worker_11:
  "workerId (New 1034 d) = 11
   \<and> NextId d (New 1034 d)
        = Inr (Id (push_bit 23 (getTimestamp d) OR push_bit 13 11 OR 1),
               \<lparr>prevTime = getTimestamp d, workerId = 11, sequence = 1, mu = False\<rparr>)
   \<and> workerField (Id (push_bit 23 (getTimestamp d) OR push_bit 13 11 OR 1)) = 11"
proof -
  have n: "New 1034 d = \<lparr>prevTime = getTimestamp d, workerId = 11, sequence = 0, mu = False\<rparr>"
    by (simp add: New_def MaxWorkerId_def HostBits_def)
  have w: "workerField (Id (push_bit 23 (getTimestamp d) OR push_bit 13 11 OR 1)) = 11"
    using worker_of_compose[of 11 1 "getTimestamp d"]
    by (simp add: workerField_def HostBits_def SequenceBits_def)
  show ?thesis
    using w by (simp add: n NextId_unlocked Let_def)
qed

section \<open>A frozen clock\<close>

text \<open>A run splits where its list of clock values splits; the second part starts from
  the generator the first part leaves.\<close>

lemma NextIds_append:
  "NextIds f (xs @ ys) =
     (case NextIds f xs of
        Inl e \<Rightarrow> Inl e
      | Inr r \<Rightarrow>
         (case NextIds (last (f # map snd r)) ys of
            Inl e \<Rightarrow> Inl e
          | Inr r' \<Rightarrow> Inr (r @ r')))"
proof (induction xs arbitrary: f)
  case Nil
  show ?case by (simp split: sum.splits)
next
  case (Cons d xs)
  show ?case
  proof (cases "NextId d f")
    case (Inl e)
    then show ?thesis by simp
  next
    case (Inr p)
    obtain i f' where p: "p = (i, f')" by (cases p)
    show ?thesis
      using Inr Cons.IH[of f'] unfolding p
      by (auto split: sum.splits)
  qed
qed

text \<open>While the clock does not pass the stored millisecond and the sequence has room,
  each call only counts the sequence up.\<close>

lemma frozen_run:
  assumes "\<not> mu f" and "getTimestamp d \<le> prevTime f" and "unat (sequence f) + k \<le> 8191"
  shows "\<exists>r. NextIds f (replicate k d) = Inr r \<and> length r = k
            \<and> last (f # map snd r) = f\<lparr>sequence := sequence f + of_nat k\<rparr>"
  using assms
proof (induction k arbitrary: f)
  case 0
  then show ?case by simp
next
  case (Suc k)
  let ?g = "f\<lparr>sequence := sequence f + 1\<rparr>"
  have u: "unat (sequence f + 1) = unat (sequence f) + 1"
    using Suc.prems(3) by (simp add: unat_word_ariths)
  have small: "\<not> sequence f + 1 > 8191"
    using Suc.prems(3) u by (simp add: word_less_nat_alt)
  have step: "NextId d f
      = Inr (Id (push_bit 23 (prevTime f) OR push_bit 13 (workerId f) OR (sequence f + 1)), ?g)"
    using Suc.prems(1,2) small by (simp add: NextId_unlocked Let_def)
  have "\<exists>r. NextIds ?g (replicate k d) = Inr r \<and> length r = k
            \<and> last (?g # map snd r) = ?g\<lparr>sequence := sequence ?g + of_nat k\<rparr>"
  proof (rule Suc.IH)
    show "\<not> mu ?g" using Suc.prems(1) by simp
    show "getTimestamp d \<le> prevTime ?g" using Suc.prems(2) by simp
    show "unat (sequence ?g) + k \<le> 8191" using Suc.prems(3) u by simp
  qed
  then obtain r where r: "NextIds ?g (replicate k d) = Inr r" "length r = k"
      "last (?g # map snd r) = ?g\<lparr>sequence := sequence ?g + of_nat k\<rparr>"
    by blast
  show ?case
    using step r by (simp add: add.assoc)
qed


lemma succ_in_window:
  fixes t :: uint64
  assumes "t < 2199023255551"
  shows "t \<le> t + 1" and "t + 1 < 2 ^ 41" and "\<not> t + 1 \<le> t"
proof -
  have n: "unat t < 2199023255551"
    using assms by (simp add: word_less_nat_alt)
  then have u: "unat (t + 1) = unat t + 1"
    by (simp add: unat_word_ariths)
  show "t \<le> t + 1" using u by (simp add: word_le_nat_alt)
  show "t + 1 < 2 ^ 41" using u n by (simp add: word_less_nat_alt)
  show "\<not> t + 1 \<le> t" using u by (simp add: word_le_nat_alt)
qed

text \<open>The two calls that follow a used-up sequence, the clock still at the stored
  millisecond.\<close>

lemma rollover_calls:
  assumes nl: "\<not> mu g" and t: "prevTime g = getTimestamp d" and s: "sequence g = 8191"
    and win: "getTimestamp d < 2199023255551"
  shows "NextIds g [d, d]
     = Inr [(Id (push_bit 23 (getTimestamp d + 1) OR push_bit 13 (workerId g) OR 0),
               g\<lparr>prevTime := getTimestamp d + 1, sequence := 0\<rparr>),
            (Id (push_bit 23 (getTimestamp d + 1) OR push_bit 13 (workerId g) OR 1),
               g\<lparr>prevTime := getTimestamp d + 1, sequence := 1\<rparr>)]"
  using nl t s succ_in_window(1)[OF win]
  by (simp add: NextId_unlocked Let_def)

lemma fields_of_rollover:
  fixes t w :: uint64
  assumes "w < 2 ^ 10" and "t < 2 ^ 41"
  shows "timestampField (Id (push_bit 23 t OR push_bit 13 w OR 0)) = t"
    and "sequenceField (Id (push_bit 23 t OR push_bit 13 w OR 0)) = 0"
    and "timestampField (Id (push_bit 23 t OR push_bit 13 w OR 1)) = t"
    and "sequenceField (Id (push_bit 23 t OR push_bit 13 w OR 1)) = 1"
  using timestamp_of_compose[OF assms(1), of 0 t] timestamp_of_compose[OF assms(1), of 1 t]
    sequence_of_compose[of 0 t w] sequence_of_compose[of 1 t w] take_bit_small[OF assms(2)]
  by (simp_all add: timestampField_def sequenceField_def HostBits_def SequenceBits_def)

text \<open>The generator is built and called 8193 times under one clock value: 8191 calls
  use the sequences 1 to 8191, the next two go to the following millisecond.\<close>

lemma rollover_fresh:
  assumes win: "getTimestamp d < 2199023255551"
  shows "\<exists>r. NextIds (New wid d) (replicate 8193 d) = Inr r \<and> length r = 8193
       \<and> timestampField (fst (r ! 8191)) = getTimestamp d + 1
       \<and> sequenceField (fst (r ! 8191)) = 0
       \<and> timestampField (fst (r ! 8192)) = getTimestamp d + 1
       \<and> sequenceField (fst (r ! 8192)) = 1"
proof -
  define g where "g = (New wid d)\<lparr>sequence := sequence (New wid d) + of_nat 8191\<rparr>"
  have "\<exists>r. NextIds (New wid d) (replicate 8191 d) = Inr r \<and> length r = 8191
            \<and> last (New wid d # map snd r) = g"
    unfolding g_def by (rule frozen_run) (simp_all add: New_def)
  then obtain r1 where r1: "NextIds (New wid d) (replicate 8191 d) = Inr r1"
      and len: "length r1 = 8191" and fin: "last (New wid d # map snd r1) = g"
    by blast
  have g: "\<not> mu g" "prevTime g = getTimestamp d" "sequence g = 8191"
    unfolding g_def by (simp_all add: New_def)
  have w: "workerId g < 2 ^ 10"
    using New_workerId_less[of wid d] unfolding g_def by simp
  define a where "a = (Id (push_bit 23 (getTimestamp d + 1) OR push_bit 13 (workerId g) OR 0),
               g\<lparr>prevTime := getTimestamp d + 1, sequence := 0\<rparr>)"
  define b where "b = (Id (push_bit 23 (getTimestamp d + 1) OR push_bit 13 (workerId g) OR 1),
               g\<lparr>prevTime := getTimestamp d + 1, sequence := 1\<rparr>)"
  have two: "NextIds g [d, d] = Inr [a, b]"
    unfolding a_def b_def by (rule rollover_calls[OF g win])
  have split: "replicate 8193 d = replicate 8191 d @ [d, d]"
    using replicate_add[of 8191 2 d] by (simp add: numeral_2_eq_2)
  have run: "NextIds (New wid d) (replicate 8193 d) = Inr (r1 @ [a, b])"
    unfolding split NextIds_append r1 sum.case fin two by (rule refl)
  have at1: "(r1 @ [a, b]) ! 8191 = a" and at2: "(r1 @ [a, b]) ! 8192 = b"
    using len by (simp_all add: nth_append)
  have ln: "length (r1 @ [a, b]) = 8193"
    using len by simp
  note fl = fields_of_rollover[OF w succ_in_window(2)[OF win]]
  have "timestampField (fst a) = getTimestamp d + 1" "sequenceField (fst a) = 0"
    "timestampField (fst b) = getTimestamp d + 1" "sequenceField (fst b) = 1"
    unfolding a_def b_def fst_conv by (rule fl)+
  with run ln at1 at2 show ?thesis
    by metis
qed

text \<open>The generator was last used in an earlier millisecond: the first call takes
  sequence 0, so the frozen millisecond serves 8192 calls.\<close>

lemma rollover_earlier:
  assumes win: "getTimestamp d < 2199023255551"
    and nl: "\<not> mu f" and w: "workerId f < 2 ^ 10" and early: "prevTime f < getTimestamp d"
  shows "\<exists>r. NextIds f (replicate 8193 d) = Inr r \<and> length r = 8193
       \<and> timestampField (fst (r ! 8192)) = getTimestamp d + 1
       \<and> sequenceField (fst (r ! 8192)) = 0"
proof -
  define g0 where "g0 = f\<lparr>prevTime := getTimestamp d, sequence := 0\<rparr>"
  define i0 where "i0 = Id (push_bit 23 (getTimestamp d) OR push_bit 13 (workerId f) OR 0)"
  have later: "\<not> getTimestamp d \<le> prevTime f"
    using early by simp
  have first: "NextId d f = Inr (i0, g0)"
    using nl later unfolding g0_def i0_def by (simp add: NextId_unlocked Let_def)
  define g where "g = g0\<lparr>sequence := sequence g0 + of_nat 8191\<rparr>"
  have "\<exists>r. NextIds g0 (replicate 8191 d) = Inr r \<and> length r = 8191
            \<and> last (g0 # map snd r) = g"
    unfolding g_def by (rule frozen_run) (simp_all add: g0_def nl)
  then obtain r1 where r1: "NextIds g0 (replicate 8191 d) = Inr r1"
      and len: "length r1 = 8191" and fin: "last (g0 # map snd r1) = g"
    by blast
  have g: "\<not> mu g" "prevTime g = getTimestamp d" "sequence g = 8191"
    unfolding g_def g0_def using nl by simp_all
  have wg: "workerId g < 2 ^ 10"
    using w unfolding g_def g0_def by simp
  define a where "a = (Id (push_bit 23 (getTimestamp d + 1) OR push_bit 13 (workerId g) OR 0),
               g\<lparr>prevTime := getTimestamp d + 1, sequence := 0\<rparr>)"
  have last_call: "NextIds g [d] = Inr [a]"
    using g succ_in_window(1)[OF win] unfolding a_def
    by (simp add: NextId_unlocked Let_def)
  have split: "replicate 8193 d = d # (replicate 8191 d @ [d])"
    using replicate_add[of 8191 1 d] replicate_Suc[of 8192 d] by simp
  have rest: "NextIds g0 (replicate 8191 d @ [d]) = Inr (r1 @ [a])"
    unfolding NextIds_append r1 sum.case fin last_call by (rule refl)
  have run: "NextIds f (replicate 8193 d) = Inr ((i0, g0) # r1 @ [a])"
    unfolding split using first rest by simp
  have at: "((i0, g0) # r1 @ [a]) ! 8192 = a"
    using len by (simp add: nth_append nth_Cons')
  have ln: "length ((i0, g0) # r1 @ [a]) = 8193"
    using len by simp
  note fl = fields_of_rollover(1,2)[OF wg succ_in_window(2)[OF win]]
  have "timestampField (fst a) = getTimestamp d + 1" "sequenceField (fst a) = 0"
    unfolding a_def fst_conv by (rule fl)+
  with run ln at show ?thesis
    by metis
qed


lemma kth_IdI:
  "NextIds f ds = Inr r \<Longrightarrow> 1 \<le> k \<Longrightarrow> k \<le> length r \<Longrightarrow> kth_Id f ds k = Some (fst (r ! (k - 1)))"
  by (simp add: kth_Id_def)

lemma rollover_fresh_kth:
  assumes win: "getTimestamp d < 2199023255551"
  shows "map_option timestampField (kth_Id (New wid d) (replicate 8193 d) 8192)
           = Some (getTimestamp d + 1)"
    and "map_option sequenceField (kth_Id (New wid d) (replicate 8193 d) 8192) = Some 0"
    and "map_option timestampField (kth_Id (New wid d) (replicate 8193 d) 8193)
           = Some (getTimestamp d + 1)"
    and "map_option sequenceField (kth_Id (New wid d) (replicate 8193 d) 8193) = Some 1"
proof -
  from rollover_fresh[OF win, of wid] obtain r where
    r: "NextIds (New wid d) (replicate 8193 d) = Inr r" "length r = 8193"
    and f: "timestampField (fst (r ! 8191)) = getTimestamp d + 1"
      "sequenceField (fst (r ! 8191)) = 0"
      "timestampField (fst (r ! 8192)) = getTimestamp d + 1"
      "sequenceField (fst (r ! 8192)) = 1"
    by blast
  have k1: "kth_Id (New wid d) (replicate 8193 d) 8192 = Some (fst (r ! 8191))"
    using kth_IdI[OF r(1), of 8192] r(2) by simp
  have k2: "kth_Id (New wid d) (replicate 8193 d) 8193 = Some (fst (r ! 8192))"
    using kth_IdI[OF r(1), of 8193] r(2) by simp
  show "map_option timestampField (kth_Id (New wid d) (replicate 8193 d) 8192)
           = Some (getTimestamp d + 1)"
    and "map_option sequenceField (kth_Id (New wid d) (replicate 8193 d) 8192) = Some 0"
    and "map_option timestampField (kth_Id (New wid d) (replicate 8193 d) 8193)
           = Some (getTimestamp d + 1)"
    and "map_option sequenceField (kth_Id (New wid d) (replicate 8193 d) 8193) = Some 1"
    unfolding k1 k2 using f by simp_all
qed

lemma rollover_earlier_kth:
  assumes win: "getTimestamp d < 2199023255551"
    and nl: "\<not> mu f" and w: "workerId f < 2 ^ 10" and early: "prevTime f < getTimestamp d"
  shows "map_option timestampField (kth_Id f (replicate 8193 d) 8193) = Some (getTimestamp d + 1)"
    and "map_option sequenceField (kth_Id f (replicate 8193 d) 8193) = Some 0"
proof -
  from rollover_earlier[OF assms] obtain r where
    r: "NextIds f (replicate 8193 d) = Inr r" "length r = 8193"
    and f: "timestampField (fst (r ! 8192)) = getTimestamp d + 1"
      "sequenceField (fst (r ! 8192)) = 0"
    by blast
  have k: "kth_Id f (replicate 8193 d) 8193 = Some (fst (r ! 8192))"
    using kth_IdI[OF r(1), of 8193] r(2) by simp
  show "map_option timestampField (kth_Id f (replicate 8193 d) 8193) = Some (getTimestamp d + 1)"
    and "map_option sequenceField (kth_Id f (replicate 8193 d) 8193) = Some 0"
    unfolding k using f by simp_all
qed

text \<open>
  C2 (as amended). The clock is frozen at one millisecond value \<open>t\<close> with
  \<open>t + 1 < 2 ^ 41\<close>, and \<^verbatim>\<open>NextId\<close> is called 8193 times. On a generator that \<^verbatim>\<open>New\<close>
  built under that same frozen clock, the rollover comes one call early: the 8192nd call
  returns timestamp field \<open>t + 1\<close> with sequence field 0, and the 8193rd call returns
  timestamp field \<open>t + 1\<close> with sequence field 1. On a generator whose stored timestamp
  is earlier than \<open>t\<close> (worker id below \<open>2 ^ 10\<close>, mutex free), the 8193rd call returns
  timestamp field \<open>t + 1\<close> with sequence field 0.
\<close>

theorem sequence_rollover_frozen_clock:
  assumes win: "getTimestamp d < 2199023255551"
  shows "map_option timestampField (kth_Id (New wid d) (replicate 8193 d) 8192)
           = Some (getTimestamp d + 1)
       \<and> map_option sequenceField (kth_Id (New wid d) (replicate 8193 d) 8192) = Some 0
       \<and> map_option timestampField (kth_Id (New wid d) (replicate 8193 d) 8193)
           = Some (getTimestamp d + 1)
       \<and> map_option sequenceField (kth_Id (New wid d) (replicate 8193 d) 8193) = Some 1
       \<and> (\<not> mu f \<and> workerId f < 2 ^ 10 \<and> prevTime f < getTimestamp d \<longrightarrow>
            map_option timestampField (kth_Id f (replicate 8193 d) 8193)
              = Some (getTimestamp d + 1)
          \<and> map_option sequenceField (kth_Id f (replicate 8193 d) 8193) = Some 0)"
  using rollover_fresh_kth[OF win, of wid] rollover_earlier_kth[OF win, of f]
  by blast

theorem sequence_rollover_frozen_clock_witness:
  "getTimestamp 5000000000 < 2199023255551
   \<and> map_option timestampField (kth_Id (New 3 5000000000) (replicate 8193 5000000000) 8192)
       = Some 5001
   \<and> map_option sequenceField (kth_Id (New 3 5000000000) (replicate 8193 5000000000) 8192)
       = Some 0
   \<and> map_option timestampField (kth_Id (New 3 5000000000) (replicate 8193 5000000000) 8193)
       = Some 5001
   \<and> map_option sequenceField (kth_Id (New 3 5000000000) (replicate 8193 5000000000) 8193)
       = Some 1
   \<and> \<not> mu (New 3 4999000000) \<and> workerId (New 3 4999000000) < 2 ^ 10
   \<and> prevTime (New 3 4999000000) < getTimestamp 5000000000
   \<and> map_option timestampField (kth_Id (New 3 4999000000) (replicate 8193 5000000000) 8193)
       = Some 5001
   \<and> map_option sequenceField (kth_Id (New 3 4999000000) (replicate 8193 5000000000) 8193)
       = Some 0"
proof -
  have g: "getTimestamp 5000000000 = 5000"
    by (simp add: getTimestamp_def)
  have win: "getTimestamp 5000000000 < 2199023255551"
    by (simp add: g)
  have f: "\<not> mu (New 3 4999000000) \<and> workerId (New 3 4999000000) < 2 ^ 10
     \<and> prevTime (New 3 4999000000) < getTimestamp 5000000000"
    by (simp add: New_eval getTimestamp_def)
  from sequence_rollover_frozen_clock[OF win, of 3 "New 3 4999000000"] win f
  show ?thesis
    by (simp add: g)
qed

text \<open>
  C2 as stated fails on the freshly built generator: with worker id 3 and the clock frozen
  at 5000 ms, the 8193rd identifier has timestamp field 5001 but sequence field 1, not 0.
\<close>

theorem rollover_8193rd_call_sequence_1:
  "map_option timestampField (kth_Id (New 3 5000000000) (replicate 8193 5000000000) 8193)
     = Some 5001
   \<and> map_option sequenceField (kth_Id (New 3 5000000000) (replicate 8193 5000000000) 8193)
     = Some 1
   \<and> map_option sequenceField (kth_Id (New 3 5000000000) (replicate 8193 5000000000) 8193)
     \<noteq> Some 0"
proof -
  have g: "getTimestamp 5000000000 = 5000"
    by (simp add: getTimestamp_def)
  have win: "getTimestamp 5000000000 < 2199023255551"
    by (simp add: g)
  from rollover_fresh_kth(3,4)[OF win, of 3] show ?thesis
    by (auto simp: g)
qed

text \<open>
  The generator at which the stored timestamp wraps (see C10) is one a program can reach:
  \<^verbatim>\<open>New(3)\<close> and 8191 calls of \<^verbatim>\<open>NextId\<close>, the clock standing one millisecond before the
  epoch.
\<close>

lemma NextIds_reachable:
  "reachable f \<Longrightarrow> NextIds f ds = Inr r \<Longrightarrow> reachable (last (f # map snd r))"
proof (induction ds arbitrary: f r)
  case Nil
  then show ?case by simp
next
  case (Cons d ds)
  from Cons.prems(2) obtain i f' r' where
    step: "NextId d f = Inr (i, f')" and rest: "NextIds f' ds = Inr r'" and r: "r = (i, f') # r'"
    by (auto split: sum.splits)
  have "reachable f'"
    using Cons.prems(1) step by (rule reachable_NextId)
  from Cons.IH[OF this rest] show ?case
    unfolding r by simp
qed

lemma wrap_state_reachable:
  "reachable \<lparr>prevTime = 18446744073709551615, workerId = 3, sequence = 8191, mu = False\<rparr>"
proof -
  have g: "getTimestamp (- 1000000) = 18446744073709551615"
    by (simp add: getTimestamp_def)
  have "\<exists>r. NextIds (New 3 (- 1000000)) (replicate 8191 (- 1000000)) = Inr r \<and> length r = 8191
            \<and> last (New 3 (- 1000000) # map snd r)
               = (New 3 (- 1000000))\<lparr>sequence := sequence (New 3 (- 1000000)) + of_nat 8191\<rparr>"
    by (rule frozen_run) (simp_all add: New_def)
  then obtain r where r: "NextIds (New 3 (- 1000000)) (replicate 8191 (- 1000000)) = Inr r"
    and fin: "last (New 3 (- 1000000) # map snd r)
               = (New 3 (- 1000000))\<lparr>sequence := sequence (New 3 (- 1000000)) + of_nat 8191\<rparr>"
    by blast
  have "reachable (last (New 3 (- 1000000) # map snd r))"
    using reachable_New r by (rule NextIds_reachable)
  then show ?thesis
    unfolding fin by (simp add: New_eval g)
qed

section \<open>Worker id from the host address: the four returns and the panic\<close>

lemma getHostId_Hostname_error: "getHostId (h, Some e) LookupIP = Inr (0, Some e)"
  by (simp add: getHostId_def)

lemma getHostId_LookupIP_error:
  "LookupIP h = (addrs, Some e) \<Longrightarrow> getHostId (h, None) LookupIP = Inr (0, Some e)"
  by (simp add: getHostId_def)

lemma getHostId_not_IPv4:
  "LookupIP h = (a0 # as, None) \<Longrightarrow> length (To4 a0) < 4 \<Longrightarrow>
     getHostId (h, None) LookupIP = Inr (0, Some ''failed to resolve hostname'')"
  by (simp add: getHostId_def)

lemma getHostId_IPv4:
  "LookupIP h = (a0 # as, None) \<Longrightarrow> \<not> length (To4 a0) < 4 \<Longrightarrow>
     getHostId (h, None) LookupIP = Inr (ucast (BigEndian_Uint32 (To4 a0)), None)"
  by (simp add: getHostId_def Let_def)

lemma getHostId_example:
  "getHostId (''host'', None) (\<lambda>h. ([[192, 168, 1, 7]], None)) = Inr (3232235783, None)"
  by (simp add: getHostId_def To4_def BigEndian_Uint32_def Let_def)

text \<open>
  C7, at the input where it fails. The claim asks for a returned error, and no generator,
  when the address lookup returns no addresses. When \<^verbatim>\<open>net.LookupIP\<close> answers with an empty
  slice and a \<^verbatim>\<open>nil\<close> error, \<^verbatim>\<open>getHostId\<close> does not return at all: \<^verbatim>\<open>addrs[0]\<close> panics
  with an index out of range, and so does \<^verbatim>\<open>WithHostId\<close>. The other cases of the claim are
  the four lemmas above.
\<close>

theorem getHostId_no_addresses_panics:
  "getHostId (''host'', None) (\<lambda>h. ([], None)) = Inl IndexOutOfRange
   \<and> WithHostId (''host'', None) (\<lambda>h. ([], None)) d = Inl IndexOutOfRange"
  by (simp add: getHostId_def WithHostId_def)

section \<open>Base 36 and back\<close>

lemma div36_less: "(36 :: uint64) \<le> u \<Longrightarrow> unat (u div 36) < unat u"
  by (simp add: unat_div word_le_nat_alt)

text \<open>The buffer that \<^verbatim>\<open>formatBits\<close> fills from the right is the text of the quotient
  followed by one more digit.\<close>

lemma formatBits_acc: "formatBits u a = formatBits u [] @ a"
proof (induction "unat u" arbitrary: u a rule: less_induct)
  case less
  show ?case
  proof (cases "36 \<le> u")
    case True
    let ?c = "digits ! unat (u - u div 36 * 36)"
    have "formatBits u a = formatBits (u div 36) (?c # a)"
      using True by (simp add: Let_def)
    also have "\<dots> = formatBits (u div 36) [] @ (?c # a)"
      by (rule less.hyps[OF div36_less[OF True]])
    also have "\<dots> = (formatBits (u div 36) [] @ [?c]) @ a"
      by simp
    also have "formatBits (u div 36) [] @ [?c] = formatBits (u div 36) [?c]"
      by (rule less.hyps[OF div36_less[OF True], symmetric])
    also have "\<dots> = formatBits u []"
      using True by (simp add: Let_def)
    finally show ?thesis .
  next
    case False
    then show ?thesis by simp
  qed
qed

lemma FormatUint36_rec:
  "FormatUint36 u =
     (if 36 \<le> u then FormatUint36 (u div 36) @ [digits ! unat (u mod 36)]
      else [digits ! unat u])"
proof (cases "36 \<le> u")
  case True
  have m: "u - u div 36 * 36 = u mod 36"
    by (rule minus_div_mult_eq_mod)
  have "formatBits u [] = formatBits (u div 36) [digits ! unat (u mod 36)]"
    using True m by (simp add: Let_def)
  then show ?thesis
    using True formatBits_acc[of "u div 36" "[digits ! unat (u mod 36)]"]
    by (simp add: FormatUint36_def)
next
  case False
  then show ?thesis by (simp add: FormatUint36_def)
qed

lemma ParseUint_loop_append:
  "ParseUint_loop n (xs @ ys) =
     (case ParseUint_loop n xs of
        (m, None) \<Rightarrow> ParseUint_loop m ys
      | (m, Some e) \<Rightarrow> (m, Some e))"
proof (induction xs arbitrary: n)
  case Nil
  show ?case by simp
next
  case (Cons c xs)
  show ?case
    by (simp add: Let_def Cons.IH split: option.splits)
qed

text \<open>Each of the 36 digit characters reads back as its own index.\<close>

lemma digit_values:
  "list_all (\<lambda>k. (let c = (of_char (digits ! k) :: nat) in
            if 48 \<le> c \<and> c \<le> 57 then Some (c - 48)
            else if 97 \<le> lower c \<and> lower c \<le> 122 then Some (lower c - 97 + 10)
            else None) = Some k) [0..<36]"
  by code_simp

lemma digit_value:
  assumes "k < 36"
  shows "(let c = (of_char (digits ! k) :: nat) in
            if 48 \<le> c \<and> c \<le> 57 then Some (c - 48)
            else if 97 \<le> lower c \<and> lower c \<le> 122 then Some (lower c - 97 + 10)
            else None) = Some k"
  using digit_values assms unfolding list_all_iff by simp

lemma parse_digit:
  assumes "k < 36"
  shows "ParseUint_loop n [digits ! k] =
     (if n \<ge> cutoff then (maxVal, Some ErrRange)
      else if n * 36 + of_nat k < n * 36 \<or> n * 36 + of_nat k > maxVal
           then (maxVal, Some ErrRange)
      else (n * 36 + of_nat k, None))"
  using digit_value[OF assms] assms by (simp add: Let_def)

lemma maxVal_top: "\<not> (x :: uint64) > maxVal"
proof -
  have "maxVal = - 1" by (simp add: maxVal_def)
  show ?thesis
    unfolding \<open>maxVal = - 1\<close> not_less by (rule word_n1_ge)
qed

lemma unat_cutoff: "unat cutoff = 512409557603043101"
  by (simp add: cutoff_def)

lemma div36_below_cutoff: "(u :: uint64) div 36 < cutoff"
proof -
  have "unat u < 2 ^ 64" using unsigned_less[of u] by simp
  then have "unat u div 36 < 512409557603043101" by simp
  then show ?thesis
    by (simp add: word_less_nat_alt unat_cutoff unat_div)
qed

lemma mod36_less: "unat ((u :: uint64) mod 36) < 36"
  by (simp add: unat_mod)

lemma parse_last_digit:
  "ParseUint_loop (u div 36) [digits ! unat (u mod 36)] = (u, None)"
proof -
  have whole: "u div 36 * 36 + u mod 36 = u"
    by (rule div_mult_mod_eq)
  have le: "u div 36 * 36 \<le> u"
    by (rule word_div_mult_le)
  show ?thesis
    using div36_below_cutoff[of u] maxVal_top[of u] le
    by (simp add: parse_digit[OF mod36_less] whole not_le not_less del: ParseUint_loop.simps)
qed

lemma parse_only_digit:
  assumes "\<not> 36 \<le> (u :: uint64)"
  shows "ParseUint_loop 0 [digits ! unat u] = (u, None)"
proof -
  have k: "unat u < 36"
    using assms by (simp add: word_le_nat_alt)
  have "(0 :: uint64) < cutoff"
    by (simp add: word_less_nat_alt unat_cutoff)
  then show ?thesis
    using maxVal_top[of u] by (simp add: parse_digit[OF k] not_le del: ParseUint_loop.simps)
qed

lemma ParseUint_loop_FormatUint36: "ParseUint_loop 0 (FormatUint36 u) = (u, None)"
proof (induction "unat u" arbitrary: u rule: less_induct)
  case less
  show ?case
  proof (cases "36 \<le> u")
    case True
    have "ParseUint_loop 0 (FormatUint36 (u div 36)) = (u div 36, None)"
      by (rule less.hyps[OF div36_less[OF True]])
    then show ?thesis
      using True parse_last_digit[of u]
      by (subst FormatUint36_rec) (simp add: ParseUint_loop_append del: ParseUint_loop.simps)
  next
    case False
    then show ?thesis
      by (subst FormatUint36_rec) (simp add: parse_only_digit del: ParseUint_loop.simps)
  qed
qed

lemma FormatUint36_nonempty: "FormatUint36 u \<noteq> []"
  by (subst FormatUint36_rec) simp

lemma FormatUint36_digits: "set (FormatUint36 u) \<subseteq> set digits"
proof (induction "unat u" arbitrary: u rule: less_induct)
  case less
  have len: "length digits = 36" by (simp add: digits_def)
  show ?case
  proof (cases "36 \<le> u")
    case True
    have "digits ! unat (u mod 36) \<in> set digits"
      using mod36_less[of u] len by (intro nth_mem) simp
    then show ?thesis
      using less.hyps[OF div36_less[OF True]] True
      by (subst FormatUint36_rec) simp
  next
    case False
    then have "unat u < 36" by (simp add: word_le_nat_alt)
    then have "digits ! unat u \<in> set digits"
      using len by (intro nth_mem) simp
    then show ?thesis
      using False by (subst FormatUint36_rec) simp
  qed
qed

text \<open>
  C6. For every identifier, \<^verbatim>\<open>String\<close> gives a text made of the digits \<^verbatim>\<open>0-9\<close> and
  \<^verbatim>\<open>a-z\<close> only, and parsing that text in base 36 as an unsigned 64-bit integer gives the
  identifier's value back, without error. The value 0 is written \<^verbatim>\<open>0\<close>, the value 36 is
  written \<^verbatim>\<open>10\<close>.
\<close>

theorem String_round_trip:
  "ParseUint36 (String i) = (Uint64 i, None)
   \<and> set (String i) \<subseteq> set ''0123456789abcdefghijklmnopqrstuvwxyz''
   \<and> String (Id 0) = ''0'' \<and> String (Id 36) = ''10''"
proof -
  have a: "ParseUint36 (String i) = (Uint64 i, None)"
    by (simp add: ParseUint36_def String_def FormatUint36_nonempty ParseUint_loop_FormatUint36)
  have b: "set (String i) \<subseteq> set ''0123456789abcdefghijklmnopqrstuvwxyz''"
    using FormatUint36_digits[of "Uint64 i"] by (simp add: String_def digits_def)
  have c: "String (Id 0) = ''0''"
    by (simp add: String_def FormatUint36_def digits_def)
  have d: "String (Id 36) = ''10''"
    by (simp add: String_def FormatUint36_def digits_def Let_def word_le_nat_alt)
  from a b c d show ?thesis by blast
qed

end
